theory Spec2Isabelle
  imports Complex_Main "HOL-Library.AList"
begin

section \<open>Data model (types/websocket.ts)\<close>

text \<open>
  A \<^verbatim>\<open>Candle\<close>. The field \<open>time\<close> holds the instant in epoch milliseconds, that is
  the value of \<^verbatim>\<open>new Date(candle.time).getTime()\<close>, the only way the aggregator reads it;
  a candle whose time is not a valid date (\<^verbatim>\<open>NaN\<close>) is outside the model.
  The prices and volumes are JavaScript numbers, that is IEEE 754 doubles; a finite double
  is the real number it denotes. \<^verbatim>\<open>NaN\<close>, the infinities and the sign of zero are outside
  the model.
  \<open>quoteVolume\<close> is optional in the source (\<^verbatim>\<open>quoteVolume?: number\<close>).
\<close>

record candle =
  time :: int
  "open" :: real
  high :: real
  low :: real
  close :: real
  volume :: real
  quoteVolume :: "real option"

record subscription =
  symbol :: string
  interval :: string

text \<open>Values thrown by the code that the model keeps as results.\<close>

datatype js_error =
    TypeError          \<comment> \<open>reading a property of \<^verbatim>\<open>undefined\<close>\<close>
  | InvalidInterval    \<comment> \<open>\<^verbatim>\<open>throw new Error(`Invalid interval: ...`)\<close> in getCandlesticks\<close>
  | QueryFailed        \<comment> \<open>the rejected promise of \<^verbatim>\<open>pool.query\<close>\<close>
  | PoolNotConnected   \<comment> \<open>the \<^verbatim>\<open>Error\<close> that \<^verbatim>\<open>getTimescalePool\<close> throws without a pool\<close>


text \<open>
  \<^verbatim>\<open>INTERVAL_TO_MS[interval]\<close>: the milliseconds of an interval, \<open>None\<close> for
  \<^verbatim>\<open>undefined\<close>. (A name inherited from \<^verbatim>\<open>Object.prototype\<close> yields a value that is
  no number; \<^verbatim>\<open>getAggregatedCandle\<close> then computes with \<^verbatim>\<open>NaN\<close>, keeps no candle and
  returns \<^verbatim>\<open>null\<close>, as it does for \<^verbatim>\<open>undefined\<close>.)
\<close>

definition INTERVAL_TO_MS :: "string \<Rightarrow> int option" where
  "INTERVAL_TO_MS = map_of
     [(''1m'', 60 * 1000),
      (''5m'', 5 * 60 * 1000),
      (''15m'', 15 * 60 * 1000),
      (''1h'', 60 * 60 * 1000),
      (''4h'', 4 * 60 * 60 * 1000),
      (''1D'', 24 * 60 * 60 * 1000),
      (''1W'', 7 * 24 * 60 * 60 * 1000)]"

section \<open>JavaScript numbers\<close>

text \<open>
  The binary exponent of a non-zero real \<open>x\<close> is the integer \<open>e\<close> with
  \<open>2^e \<le> \<bar>x\<bar> < 2^(e+1)\<close>: the number of halvings that bring \<open>\<bar>x\<bar>\<close> below 2, or minus the
  number of doublings that bring it up to 1.
\<close>

function halvings :: "real \<Rightarrow> nat" where
  "halvings m = (if 2 \<le> m then Suc (halvings (m / 2)) else 0)"
  by pat_completeness auto
termination
proof (relation "measure (\<lambda>m. nat \<lfloor>m\<rfloor>)")
  show "wf (measure (\<lambda>m::real. nat \<lfloor>m\<rfloor>))" by simp
next
  fix m :: real
  assume m: "2 \<le> m"
  have "m / 2 \<le> m - 1" using m by simp
  then have "\<lfloor>m / 2\<rfloor> \<le> \<lfloor>m - 1\<rfloor>" by (rule floor_mono)
  also have "\<lfloor>m - 1\<rfloor> = \<lfloor>m\<rfloor> - 1" by simp
  finally have "\<lfloor>m / 2\<rfloor> < \<lfloor>m\<rfloor>" by simp
  moreover have "0 < \<lfloor>m\<rfloor>" using m by simp
  ultimately show "(m / 2, m) \<in> measure (\<lambda>m. nat \<lfloor>m\<rfloor>)" by simp
qed

function doublings :: "real \<Rightarrow> nat" where
  "doublings m = (if 0 < m \<and> m < 1 then Suc (doublings (m * 2)) else 0)"
  by pat_completeness auto
termination
proof (relation "measure (\<lambda>m. nat \<lfloor>1 / m\<rfloor>)")
  show "wf (measure (\<lambda>m::real. nat \<lfloor>1 / m\<rfloor>))" by simp
next
  fix m :: real
  assume "0 < m \<and> m < 1"
  then have m: "0 < m" "m < 1" by simp_all
  define y where "y = 1 / m"
  have y: "1 < y" using m by (simp add: y_def)
  have eq: "1 / (m * 2) = y / 2" by (simp add: y_def)
  have "\<lfloor>y / 2\<rfloor> < \<lfloor>y\<rfloor>"
  proof (cases "2 \<le> y")
    case True
    then have "y / 2 \<le> y - 1" by simp
    then have "\<lfloor>y / 2\<rfloor> \<le> \<lfloor>y - 1\<rfloor>" by (rule floor_mono)
    then show ?thesis by simp
  next
    case False
    with y have "\<lfloor>y / 2\<rfloor> = 0" by (simp add: floor_eq_iff)
    moreover have "1 \<le> \<lfloor>y\<rfloor>" using y by simp
    ultimately show ?thesis by simp
  qed
  then have lt: "\<lfloor>1 / (m * 2)\<rfloor> < \<lfloor>1 / m\<rfloor>" by (metis eq y_def)
  have "0 < \<lfloor>y\<rfloor>" using y by simp
  then have pos: "0 < \<lfloor>1 / m\<rfloor>" by (simp only: y_def)
  from lt pos have "nat \<lfloor>1 / (m * 2)\<rfloor> < nat \<lfloor>1 / m\<rfloor>" by linarith
  then show "(m * 2, m) \<in> measure (\<lambda>m. nat \<lfloor>1 / m\<rfloor>)" by (simp only: in_measure)
qed

declare halvings.simps [simp del] doublings.simps [simp del]

definition binary_exponent :: "real \<Rightarrow> int" where
  "binary_exponent x = int (halvings \<bar>x\<bar>) - int (doublings \<bar>x\<bar>)"

text \<open>The integer nearest to \<open>y\<close>; of two equally near integers the even one.\<close>

definition nearest_even :: "real \<Rightarrow> int" where
  "nearest_even y =
     (let f = \<lfloor>y\<rfloor>; r = y - of_int f in
      if r < 1 / 2 then f
      else if 1 / 2 < r then f + 1
      else if even f then f else f + 1)"

text \<open>
  Rounding to the nearest double, ties to even: doubles have 53 significant bits, so next
  to \<open>x\<close> they are the multiples of \<open>2^(e - 52)\<close>, with \<open>e\<close> the binary exponent of \<open>x\<close> and
  at least \<open>-1022\<close> (below \<open>2^(-1022)\<close> the spacing stays \<open>2^(-1074)\<close>). A result of
  magnitude \<open>2^1024\<close> or more is an infinity in JavaScript and outside the model.
\<close>

definition round_double :: "real \<Rightarrow> real" where
  "round_double x =
     (if x = 0 then 0
      else
        (let q = 2 powi (max (binary_exponent x) (- 1022) - 52)
         in of_int (nearest_even (x / q)) * q))"

text \<open>The operator \<^verbatim>\<open>+\<close> on two numbers: the exact sum, rounded.\<close>

definition js_add :: "real \<Rightarrow> real \<Rightarrow> real" where
  "js_add x y = round_double (x + y)"

text \<open>
  The sum of a list of numbers as \<^verbatim>\<open>reduce((sum, x) => sum + x, 0)\<close> computes it: from 0,
  left to right, every addition rounded.
\<close>

definition js_sum :: "real list \<Rightarrow> real" where
  "js_sum xs = foldl js_add 0 xs"


section \<open>CandleAggregator (aggregator.ts)\<close>

text \<open>
  The private field \<^verbatim>\<open>oneMinuteCandles: Map<string, Candle[]>\<close>. Every method takes
  the map and the mutating ones return the new map.
\<close>

type_synonym aggregator = "string \<rightharpoonup> candle list"

definition MAX_1M_CANDLES :: nat where
  "MAX_1M_CANDLES = 1440"

text \<open>\<^verbatim>\<open>getOneMinuteCandles\<close>: \<^verbatim>\<open>this.oneMinuteCandles.get(symbol) || []\<close>.\<close>

definition getOneMinuteCandles :: "aggregator \<Rightarrow> string \<Rightarrow> candle list" where
  "getOneMinuteCandles agg smb = (case agg smb of None \<Rightarrow> [] | Some candles \<Rightarrow> candles)"

text \<open>
  \<^verbatim>\<open>processOneMinuteCandle\<close>. A missing symbol gets the empty array first. The last
  candle is overwritten when it has the time of the new one; otherwise the new candle is
  pushed and, when the array is then longer than \<open>MAX_1M_CANDLES\<close>, the first one is
  shifted out. The method has no other branch and throws nothing.
\<close>

definition processOneMinuteCandle :: "aggregator \<Rightarrow> string \<Rightarrow> candle \<Rightarrow> aggregator" where
  "processOneMinuteCandle agg smb c =
     (let candles = (case agg smb of None \<Rightarrow> [] | Some cs \<Rightarrow> cs) in
      if candles \<noteq> [] \<and> time (last candles) = time c
      then agg(smb \<mapsto> candles[length candles - 1 := c])
      else
        (let pushed = candles @ [c] in
         agg(smb \<mapsto> (if length pushed > MAX_1M_CANDLES then tl pushed else pushed))))"

text \<open>
  \<^verbatim>\<open>Array.prototype.slice(start)\<close> with one argument: a negative start counts from the
  end, and the start is clamped into the array.
\<close>

definition slice :: "int \<Rightarrow> 'a list \<Rightarrow> 'a list" where
  "slice start xs =
     (let len = int (length xs);
          k = (if start < 0 then max (len + start) 0 else min start len)
      in drop (nat k) xs)"

text \<open>
  \<^verbatim>\<open>initializeCandles\<close>. \<^verbatim>\<open>Array.prototype.sort\<close> is stable and the comparator is
  the difference of the times, so the sorted copy is the stable sort by time,
  \<open>sort_key time\<close>. The window becomes \<^verbatim>\<open>sortedCandles.slice(-limit)\<close>.
\<close>

definition initializeCandles :: "aggregator \<Rightarrow> string \<Rightarrow> candle list \<Rightarrow> aggregator" where
  "initializeCandles agg smb candles =
     (let sortedCandles = sort_key time candles;
          limit = min (length sortedCandles) MAX_1M_CANDLES
      in agg(smb \<mapsto> slice (- int limit) sortedCandles))"

text \<open>
  \<^verbatim>\<open>getIntervalStart\<close>: \<^verbatim>\<open>Math.floor(timestamp / intervalMs) * intervalMs\<close>. Both
  numbers are integers of milliseconds below \<open>2^53\<close>, where the floor of the floating-point
  quotient is the integer quotient rounded down, \<open>div\<close> on \<open>int\<close>.
\<close>

definition getIntervalStart :: "int \<Rightarrow> int \<Rightarrow> int" where
  "getIntervalStart timestamp intervalMs = (timestamp div intervalMs) * intervalMs"

text \<open>\<^verbatim>\<open>c.quoteVolume || 0\<close>: a missing quote volume counts as 0.\<close>

definition orZero :: "real option \<Rightarrow> real" where
  "orZero q = (case q of None \<Rightarrow> 0 | Some v \<Rightarrow> v)"

text \<open>
  \<^verbatim>\<open>aggregateCandles\<close>. On the empty array \<^verbatim>\<open>sorted[0].open\<close> reads a property of
  \<^verbatim>\<open>undefined\<close>, a TypeError. \<^verbatim>\<open>Math.max(...)\<close> and \<^verbatim>\<open>Math.min(...)\<close> of the
  non-empty argument list are folded from its first element; the two
  \<^verbatim>\<open>reduce\<close> calls add doubles from 0, left to right over the candles sorted by time.
  The result always carries a \<open>quoteVolume\<close>.
\<close>

definition aggregateCandles :: "candle list \<Rightarrow> int \<Rightarrow> js_error + candle" where
  "aggregateCandles candles startTime =
     (let sorted = sort_key time candles in
      case sorted of
        [] \<Rightarrow> Inl TypeError
      | c0 # rest \<Rightarrow>
          Inr \<lparr> time = startTime,
                open = open c0,
                high = fold max (map high rest) (high c0),
                low = fold min (map low rest) (low c0),
                close = close (last sorted),
                volume = foldl (\<lambda>sum c. js_add sum (volume c)) 0 sorted,
                quoteVolume =
                  Some (foldl (\<lambda>sum c. js_add sum (orZero (quoteVolume c))) 0 sorted) \<rparr>)"

text \<open>
  \<^verbatim>\<open>getAggregatedCandle\<close>, with the reading of the clock (\<^verbatim>\<open>new Date()\<close>, in epoch
  milliseconds) as the parameter \<open>now\<close>. \<open>Inr None\<close> is the result \<^verbatim>\<open>null\<close>.
  For \<^verbatim>\<open>'1m'\<close> the last candle of the window is returned whatever the clock says.
\<close>

definition getAggregatedCandle ::
    "aggregator \<Rightarrow> int \<Rightarrow> string \<Rightarrow> string \<Rightarrow> js_error + candle option" where
  "getAggregatedCandle agg now smb iv =
     (if iv = ''1m'' then
        (case agg smb of
           None \<Rightarrow> Inr None
         | Some candles \<Rightarrow> Inr (if candles \<noteq> [] then Some (last candles) else None))
      else
        (case INTERVAL_TO_MS iv of
           None \<Rightarrow> Inr None
         | Some intervalMs \<Rightarrow>
             (case agg smb of
                None \<Rightarrow> Inr None
              | Some candles \<Rightarrow>
                  if candles = [] then Inr None
                  else
                    (let currentIntervalStart = getIntervalStart now intervalMs;
                         intervalCandles =
                           filter (\<lambda>c. time c \<ge> currentIntervalStart
                                        \<and> time c < currentIntervalStart + intervalMs) candles
                     in if intervalCandles = [] then Inr None
                        else
                          (case aggregateCandles intervalCandles currentIntervalStart of
                             Inl e \<Rightarrow> Inl e
                           | Inr c \<Rightarrow> Inr (Some c))))))"

text \<open>The aggregator as constructed: an empty map.\<close>

definition newAggregator :: aggregator where
  "newAggregator = Map.empty"

text \<open>
  Sequences of the two mutating operations, run from the aggregator as constructed.
\<close>

datatype agg_op = Ingest string candle | Initialize string "candle list"

fun agg_step :: "aggregator \<Rightarrow> agg_op \<Rightarrow> aggregator" where
  "agg_step agg (Ingest smb c) = processOneMinuteCandle agg smb c"
| "agg_step agg (Initialize smb candles) = initializeCandles agg smb candles"

definition agg_run :: "agg_op list \<Rightarrow> aggregator" where
  "agg_run ops = foldl agg_step newAggregator ops"

text \<open>
  An operation arrives in order when it is an initialisation, or an ingest whose candle
  is not older than the last candle of its symbol's window at that moment.
\<close>

fun in_order :: "aggregator \<Rightarrow> agg_op \<Rightarrow> bool" where
  "in_order agg (Ingest smb c) =
     (let w = getOneMinuteCandles agg smb in w = [] \<or> time (last w) \<le> time c)"
| "in_order agg (Initialize smb candles) = True"

fun all_in_order :: "aggregator \<Rightarrow> agg_op list \<Rightarrow> bool" where
  "all_in_order agg [] = True"
| "all_in_order agg (x # xs) = (in_order agg x \<and> all_in_order (agg_step agg x) xs)"

text \<open>
  The candles of a window that \<^verbatim>\<open>getAggregatedCandle\<close> keeps for the bar of
  \<open>intervalMs\<close> milliseconds that contains \<open>now\<close>.
\<close>

definition in_bar :: "int \<Rightarrow> int \<Rightarrow> candle \<Rightarrow> bool" where
  "in_bar now intervalMs c =
     (getIntervalStart now intervalMs \<le> time c
      \<and> time c < getIntervalStart now intervalMs + intervalMs)"

text \<open>The spec's wording of the window after \<open>initialize\<close>: the last \<open>k\<close> elements.\<close>

definition last_n :: "nat \<Rightarrow> 'a list \<Rightarrow> 'a list" where
  "last_n k xs = rev (take k (rev xs))"

text \<open>
  The first candle with the least time and the last candle with the greatest time of a
  list: the earliest and the latest contributor of a bar.
\<close>

definition earliest :: "candle list \<Rightarrow> candle" where
  "earliest cs = hd (filter (\<lambda>c. \<forall>d \<in> set cs. time c \<le> time d) cs)"

definition latest :: "candle list \<Rightarrow> candle" where
  "latest cs = last (filter (\<lambda>c. \<forall>d \<in> set cs. time d \<le> time c) cs)"

text \<open>A 1m candle without quote volume, for the concrete scenarios.\<close>

definition bar :: "int \<Rightarrow> real \<Rightarrow> real \<Rightarrow> real \<Rightarrow> real \<Rightarrow> real \<Rightarrow> candle" where
  "bar t o' h l c v =
     \<lparr> time = t, open = o', high = h, low = l, close = c, volume = v, quoteVolume = None \<rparr>"

section \<open>RoomBroadcaster (broadcaster.ts)\<close>

text \<open>
  A client is the identity of its \<^verbatim>\<open>ExtendedWebSocket\<close> object. A JavaScript
  \<^verbatim>\<open>Set\<close> is the list of its elements in insertion order, and the \<^verbatim>\<open>Map\<close> of rooms
  an association list in insertion order.
\<close>

type_synonym client = nat

record room =
  key :: string
  subscription :: subscription
  clients :: "client list"
  currentCandle :: "candle option"
  lastBroadcast :: int

text \<open>
  The state the broadcaster's methods touch: its \<^verbatim>\<open>rooms\<close> map and, for every client
  object, that client's \<^verbatim>\<open>subscriptions\<close> set.
\<close>

record bstate =
  rooms :: "(string \<times> room) list"
  subscriptions :: "client \<Rightarrow> string list"

definition Set_add :: "'a \<Rightarrow> 'a list \<Rightarrow> 'a list" where
  "Set_add x xs = (if x \<in> set xs then xs else xs @ [x])"

definition Set_delete :: "'a \<Rightarrow> 'a list \<Rightarrow> 'a list" where
  "Set_delete x xs = removeAll x xs"

definition getRoomKey :: "subscription \<Rightarrow> string" where
  "getRoomKey sub = symbol sub @ '':'' @ interval sub"

text \<open>
  \<^verbatim>\<open>addClientToRoom\<close>. A room that is not registered is created with no clients, no
  candle and \<^verbatim>\<open>lastBroadcast = 0\<close>; \<open>AList.update\<close> appends a new key and keeps the
  place of an old one, as \<^verbatim>\<open>Map.set\<close> does.
\<close>

definition addClientToRoom :: "bstate \<Rightarrow> client \<Rightarrow> subscription \<Rightarrow> bstate" where
  "addClientToRoom st client sub =
     (let roomKey = getRoomKey sub;
          room = (case map_of (rooms st) roomKey of
                    None \<Rightarrow> \<lparr> key = roomKey, subscription = sub, clients = [],
                               currentCandle = None, lastBroadcast = 0 \<rparr>
                  | Some r \<Rightarrow> r)
      in st \<lparr> rooms := AList.update roomKey (room \<lparr> clients := Set_add client (clients room) \<rparr>) (rooms st),
              subscriptions := (subscriptions st)
                 (client := Set_add roomKey (subscriptions st client)) \<rparr>)"

definition removeClientFromRoom :: "bstate \<Rightarrow> client \<Rightarrow> subscription \<Rightarrow> bstate" where
  "removeClientFromRoom st client sub =
     (let roomKey = getRoomKey sub in
      case map_of (rooms st) roomKey of
        None \<Rightarrow> st
      | Some room \<Rightarrow>
          (let room' = room \<lparr> clients := Set_delete client (clients room) \<rparr> in
           st \<lparr> rooms := (if length (clients room') = 0
                           then AList.delete roomKey (rooms st)
                           else AList.update roomKey room' (rooms st)),
                subscriptions := (subscriptions st)
                   (client := Set_delete roomKey (subscriptions st client)) \<rparr>))"

text \<open>The body of the loop of \<^verbatim>\<open>removeClientFromAllRooms\<close>, for one room key.\<close>

definition removeClientFromAllRooms_body ::
    "client \<Rightarrow> string \<Rightarrow> (string \<times> room) list \<Rightarrow> (string \<times> room) list" where
  "removeClientFromAllRooms_body client roomKey rs =
     (case map_of rs roomKey of
        None \<Rightarrow> rs
      | Some room \<Rightarrow>
          (let room' = room \<lparr> clients := Set_delete client (clients room) \<rparr> in
           if length (clients room') = 0
           then AList.delete roomKey rs
           else AList.update roomKey room' rs))"

definition removeClientFromAllRooms :: "bstate \<Rightarrow> client \<Rightarrow> bstate" where
  "removeClientFromAllRooms st client =
     st \<lparr> rooms := fold (removeClientFromAllRooms_body client) (subscriptions st client) (rooms st),
          subscriptions := (subscriptions st)(client := []) \<rparr>"

text \<open>
  \<^verbatim>\<open>updateRoomCandle\<close>: the loop over \<^verbatim>\<open>this.rooms.values()\<close>. Every visit of a
  room of the symbol calls \<^verbatim>\<open>getAggregatedCandle\<close>, which reads the clock;
  \<open>clock k\<close> is the reading during the visit of the room registered under \<open>k\<close>.
  An exception of the aggregator would leave the loop.
\<close>

fun updateRoomCandle_loop ::
    "aggregator \<Rightarrow> (string \<Rightarrow> int) \<Rightarrow> string \<Rightarrow> (string \<times> room) list
      \<Rightarrow> js_error + (string \<times> room) list" where
  "updateRoomCandle_loop agg clock smb [] = Inr []"
| "updateRoomCandle_loop agg clock smb ((k, room) # rest) =
     (if symbol (subscription room) = smb then
        (case getAggregatedCandle agg (clock k) smb (interval (subscription room)) of
           Inl e \<Rightarrow> Inl e
         | Inr candle \<Rightarrow>
             (case updateRoomCandle_loop agg clock smb rest of
                Inl e \<Rightarrow> Inl e
              | Inr rest' \<Rightarrow>
                  Inr ((k, (case candle of
                              None \<Rightarrow> room
                            | Some c \<Rightarrow> room \<lparr> currentCandle := Some c \<rparr>)) # rest')))
      else
        (case updateRoomCandle_loop agg clock smb rest of
           Inl e \<Rightarrow> Inl e
         | Inr rest' \<Rightarrow> Inr ((k, room) # rest')))"

definition updateRoomCandle ::
    "aggregator \<Rightarrow> (string \<Rightarrow> int) \<Rightarrow> bstate \<Rightarrow> string \<Rightarrow> js_error + bstate" where
  "updateRoomCandle agg clock st smb =
     (case updateRoomCandle_loop agg clock smb (rooms st) of
        Inl e \<Rightarrow> Inl e
      | Inr rs \<Rightarrow> Inr (st \<lparr> rooms := rs \<rparr>))"

definition newBroadcaster :: bstate where
  "newBroadcaster = \<lparr> rooms = [], subscriptions = (\<lambda>client. []) \<rparr>"

text \<open>Sequences of the three membership operations, run from the broadcaster as constructed.\<close>

datatype room_op = Join client subscription | Leave client subscription | LeaveAll client

fun room_step :: "bstate \<Rightarrow> room_op \<Rightarrow> bstate" where
  "room_step st (Join client sub) = addClientToRoom st client sub"
| "room_step st (Leave client sub) = removeClientFromRoom st client sub"
| "room_step st (LeaveAll client) = removeClientFromAllRooms st client"

definition room_run :: "room_op list \<Rightarrow> bstate" where
  "room_run ops = foldl room_step newBroadcaster ops"

text \<open>
  The registry and the clients agree: no key is registered twice, and every room a client
  is in is among that client's subscriptions.
\<close>

definition member_subscribed :: "bstate \<Rightarrow> bool" where
  "member_subscribed st =
     (distinct (map fst (rooms st))
      \<and> (\<forall>p \<in> set (rooms st). \<forall>c \<in> set (clients (snd p)). fst p \<in> set (subscriptions st c)))"

text \<open>
  What a refresh for the symbol \<open>smb\<close> may do to one registered room: the key and every
  field but \<open>currentCandle\<close> stay, and \<open>currentCandle\<close> takes the candle of the aggregator
  when the room is of the symbol and the aggregator returns a candle, and stays otherwise.
\<close>

definition refreshed ::
    "aggregator \<Rightarrow> (string \<Rightarrow> int) \<Rightarrow> string \<Rightarrow> string \<times> room \<Rightarrow> string \<times> room \<Rightarrow> bool" where
  "refreshed agg clock smb before after =
     (fst after = fst before
      \<and> key (snd after) = key (snd before)
      \<and> subscription (snd after) = subscription (snd before)
      \<and> clients (snd after) = clients (snd before)
      \<and> lastBroadcast (snd after) = lastBroadcast (snd before)
      \<and> currentCandle (snd after) =
          (if symbol (subscription (snd before)) = smb then
             (case getAggregatedCandle agg (clock (fst before)) smb
                     (interval (subscription (snd before))) of
                Inr (Some c) \<Rightarrow> Some c
              | _ \<Rightarrow> currentCandle (snd before))
           else currentCandle (snd before)))"

section \<open>History service and the subscribe handler (timescale.ts, history.ts, candles.ts)\<close>

text \<open>
  A value parsed from JSON. The field \<^verbatim>\<open>initialBars\<close> of a message is declared a number,
  but nothing checks it, so it can hold any of these.
\<close>

datatype json =
    JNull
  | JBool bool
  | JNumber real
  | JString string
  | JArray "json list"
  | JObject "(string \<times> json) list"









datatype server_message =
    InitialDataMessage string string "candle list"
  | UpdateMessage string string candle
  | ErrorMessage string
  | PongMessage






section \<open>The 1m window\<close>

lemma overwrite_last: "w \<noteq> [] \<Longrightarrow> w[length w - Suc 0 := c] = butlast w @ [c]"
  by (induction w rule: rev_induct) simp_all

lemma process_window:
  "getOneMinuteCandles (processOneMinuteCandle agg smb c) smb =
     (let w = getOneMinuteCandles agg smb in
      if w \<noteq> [] \<and> time (last w) = time c then butlast w @ [c]
      else if w = [] then [c]
      else if length w \<ge> MAX_1M_CANDLES then tl w @ [c] else w @ [c])"
  by (auto simp: getOneMinuteCandles_def processOneMinuteCandle_def Let_def MAX_1M_CANDLES_def
      overwrite_last split: option.splits)

lemma process_other:
  "s' \<noteq> smb \<Longrightarrow> getOneMinuteCandles (processOneMinuteCandle agg smb c) s' = getOneMinuteCandles agg s'"
  by (simp add: getOneMinuteCandles_def processOneMinuteCandle_def Let_def)

lemma process_upd:
  "processOneMinuteCandle agg smb c = agg(smb \<mapsto> getOneMinuteCandles (processOneMinuteCandle agg smb c) smb)"
  by (simp add: getOneMinuteCandles_def processOneMinuteCandle_def Let_def)

lemma slice_neg: "0 < k \<Longrightarrow> slice (- int (min (length xs) k)) xs = drop (length xs - k) xs"
  by (cases "xs = []") (auto simp: slice_def Let_def max_def min_def nat_diff_distrib' of_nat_diff)

lemma last_n_drop: "last_n k xs = drop (length xs - k) xs"
  by (simp add: last_n_def rev_take)

lemma initialize_window:
  "getOneMinuteCandles (initializeCandles agg smb S) smb =
     drop (length S - MAX_1M_CANDLES) (sort_key time S)"
  by (simp add: getOneMinuteCandles_def initializeCandles_def Let_def slice_neg [where xs = "sort_key time S", simplified] MAX_1M_CANDLES_def)

lemma initialize_other:
  "s' \<noteq> smb \<Longrightarrow> getOneMinuteCandles (initializeCandles agg smb S) s' = getOneMinuteCandles agg s'"
  by (simp add: getOneMinuteCandles_def initializeCandles_def Let_def)

lemma length_tl_snoc: "length (tl w @ [c]) \<le> max 1 (length w)"
  by (cases w) simp_all

lemma process_length:
  assumes "length (getOneMinuteCandles agg s') \<le> MAX_1M_CANDLES"
  shows "length (getOneMinuteCandles (processOneMinuteCandle agg smb c) s') \<le> MAX_1M_CANDLES"
proof (cases "s' = smb")
  case True
  with assms show ?thesis
    by (auto simp: process_window Let_def MAX_1M_CANDLES_def)
next
  case False
  with assms show ?thesis by (simp add: process_other)
qed

lemma initialize_length:
  assumes "length (getOneMinuteCandles agg s') \<le> MAX_1M_CANDLES"
  shows "length (getOneMinuteCandles (initializeCandles agg smb S) s') \<le> MAX_1M_CANDLES"
proof (cases "s' = smb")
  case True
  then show ?thesis by (simp add: initialize_window)
next
  case False
  with assms show ?thesis by (simp add: initialize_other)
qed

lemma sorted_butlast_snoc:
  assumes "sorted (map time w)" "w \<noteq> []" "time (last w) \<le> time c"
  shows "sorted (map time (butlast w @ [c]))"
proof -
  have "sorted (map time (butlast w))"
    using assms(1) by (simp add: map_butlast sorted_butlast)
  moreover have "\<forall>x \<in> set (butlast w). time x \<le> time c"
  proof
    fix x assume x: "x \<in> set (butlast w)"
    have "sorted (map time (butlast w @ [last w]))"
      using assms(1,2) by simp
    then have "time x \<le> time (last w)"
      using x by (simp add: sorted_append)
    with assms(3) show "time x \<le> time c" by simp
  qed
  ultimately show ?thesis by (simp add: sorted_append)
qed

lemma sorted_tl_snoc:
  assumes "sorted (map time w)" "w \<noteq> []" "time (last w) \<le> time c"
  shows "sorted (map time (w @ [c]))" and "sorted (map time (tl w @ [c]))"
proof -
  have "\<forall>x \<in> set w. time x \<le> time c"
  proof
    fix x assume x: "x \<in> set w"
    show "time x \<le> time c"
    proof (cases "x = last w")
      case True
      with assms(3) show ?thesis by simp
    next
      case False
      with x assms(2) have "x \<in> set (butlast w)"
        by (metis append_butlast_last_id in_set_conv_decomp rotate1.simps(2) set_ConsD set_rotate1)
      moreover have "sorted (map time (butlast w @ [last w]))"
        using assms(1,2) by simp
      ultimately have "time x \<le> time (last w)" by (simp add: sorted_append)
      with assms(3) show ?thesis by simp
    qed
  qed
  then show a: "sorted (map time (w @ [c]))"
    using assms(1) by (simp add: sorted_append)
  have "map time (tl w @ [c]) = tl (map time (w @ [c]))"
    using assms(2) by (simp add: map_tl)
  with a show "sorted (map time (tl w @ [c]))"
    by (metis sorted_tl)
qed

lemma process_sorted:
  assumes "sorted (map time (getOneMinuteCandles agg s'))" "in_order agg (Ingest smb c)"
  shows "sorted (map time (getOneMinuteCandles (processOneMinuteCandle agg smb c) s'))"
proof (cases "s' = smb")
  case True
  let ?w = "getOneMinuteCandles agg smb"
  show ?thesis
  proof (cases "?w = []")
    case True
    with \<open>s' = smb\<close> show ?thesis by (simp add: process_window)
  next
    case False
    with assms(2) have le: "time (last ?w) \<le> time c" by (simp add: Let_def)
    from assms(1) \<open>s' = smb\<close> have srt: "sorted (map time ?w)" by simp
    show ?thesis
      using \<open>s' = smb\<close> False sorted_butlast_snoc [OF srt False le] sorted_tl_snoc [OF srt False le]
      by (simp add: process_window Let_def)
  qed
next
  case False
  with assms(1) show ?thesis by (simp add: process_other)
qed

lemma initialize_window_sorted:
  "sorted (map time (getOneMinuteCandles (initializeCandles agg smb S) smb))"
proof -
  have "sorted (map time (sort_key time S))" by simp
  then have "sorted (drop (length S - MAX_1M_CANDLES) (map time (sort_key time S)))"
    by (rule sorted_wrt_drop)
  then show ?thesis by (simp add: initialize_window drop_map)
qed

lemma initialize_sorted:
  assumes "sorted (map time (getOneMinuteCandles agg s'))"
  shows "sorted (map time (getOneMinuteCandles (initializeCandles agg smb S) s'))"
proof (cases "s' = smb")
  case True
  then show ?thesis by (simp add: initialize_window_sorted)
next
  case False
  with assms show ?thesis by (simp add: initialize_other)
qed

lemma agg_step_length:
  "length (getOneMinuteCandles agg s') \<le> MAX_1M_CANDLES \<Longrightarrow>
   length (getOneMinuteCandles (agg_step agg x) s') \<le> MAX_1M_CANDLES"
  by (cases x) (simp_all add: process_length initialize_length)

lemma agg_step_sorted:
  "sorted (map time (getOneMinuteCandles agg s')) \<Longrightarrow> in_order agg x \<Longrightarrow>
   sorted (map time (getOneMinuteCandles (agg_step agg x) s'))"
  by (cases x) (simp_all add: process_sorted initialize_sorted del: in_order.simps)

lemma foldl_agg_step_length:
  "length (getOneMinuteCandles agg s') \<le> MAX_1M_CANDLES \<Longrightarrow>
   length (getOneMinuteCandles (foldl agg_step agg ops) s') \<le> MAX_1M_CANDLES"
  by (induction ops arbitrary: agg) (simp_all add: agg_step_length)

lemma foldl_agg_step_sorted:
  "sorted (map time (getOneMinuteCandles agg s')) \<Longrightarrow> all_in_order agg ops \<Longrightarrow>
   sorted (map time (getOneMinuteCandles (foldl agg_step agg ops) s'))"
  by (induction ops arbitrary: agg) (simp_all add: agg_step_sorted)

lemma window_new [simp]: "getOneMinuteCandles newAggregator s' = []"
  by (simp add: getOneMinuteCandles_def newAggregator_def)

text \<open>
  Claim C1. The code has no out-of-order rejection. As amended: a candle whose time is strictly
  less than the time of the window's last candle is appended to the window like any other
  new candle, and the first candle is dropped when the window already held
  \<open>MAX_1M_CANDLES\<close> candles; \<open>processOneMinuteCandle\<close> has no failure to report.
\<close>

theorem ingest_out_of_order_appends:
  assumes "getOneMinuteCandles agg smb \<noteq> []"
    and "time c < time (last (getOneMinuteCandles agg smb))"
  shows "getOneMinuteCandles (processOneMinuteCandle agg smb c) smb =
           (if length (getOneMinuteCandles agg smb) \<ge> MAX_1M_CANDLES
            then tl (getOneMinuteCandles agg smb) @ [c]
            else getOneMinuteCandles agg smb @ [c])"
  using assms by (simp add: process_window Let_def)

text \<open>The window after an older candle arrives is not the window before.\<close>

theorem ingest_out_of_order_changes_window:
  "time (bar 60000 1 1 1 1 1)
     < time (last (getOneMinuteCandles (agg_run [Ingest ''BTC/USDT'' (bar 120000 1 1 1 1 1)]) ''BTC/USDT''))
   \<and> getOneMinuteCandles
        (processOneMinuteCandle (agg_run [Ingest ''BTC/USDT'' (bar 120000 1 1 1 1 1)])
           ''BTC/USDT'' (bar 60000 1 1 1 1 1)) ''BTC/USDT''
      = [bar 120000 1 1 1 1 1, bar 60000 1 1 1 1 1]
   \<and> getOneMinuteCandles (agg_run [Ingest ''BTC/USDT'' (bar 120000 1 1 1 1 1)]) ''BTC/USDT''
      = [bar 120000 1 1 1 1 1]"
  by (simp add: agg_run_def newAggregator_def processOneMinuteCandle_def getOneMinuteCandles_def
      bar_def MAX_1M_CANDLES_def)

theorem ingest_out_of_order_appends_witness:
  "getOneMinuteCandles
     (processOneMinuteCandle
        (agg_run [Ingest ''BTC/USDT'' (bar 60000 1 1 1 1 1), Ingest ''BTC/USDT'' (bar 120000 2 2 2 2 2)])
        ''BTC/USDT'' (bar 0 3 3 3 3 3)) ''BTC/USDT''
   = [bar 60000 1 1 1 1 1, bar 120000 2 2 2 2 2, bar 0 3 3 3 3 3]"
  using ingest_out_of_order_appends
    [of "agg_run [Ingest ''BTC/USDT'' (bar 60000 1 1 1 1 1), Ingest ''BTC/USDT'' (bar 120000 2 2 2 2 2)]"
        "''BTC/USDT''" "bar 0 3 3 3 3 3"]
  by (simp add: agg_run_def newAggregator_def processOneMinuteCandle_def getOneMinuteCandles_def
      bar_def MAX_1M_CANDLES_def)

text \<open>
  Claim C2. As amended: after every sequence of ingest and initialize operations the window of
  every symbol has at most \<open>MAX_1M_CANDLES = 1440\<close> candles; its times are non-decreasing
  when every ingested candle was not older than the last candle of its window at the moment
  it arrived.
\<close>

theorem window_bounded_and_sorted_when_in_order:
  "length (getOneMinuteCandles (agg_run ops) smb) \<le> MAX_1M_CANDLES
   \<and> (all_in_order newAggregator ops
        \<longrightarrow> sorted (map time (getOneMinuteCandles (agg_run ops) smb)))"
  unfolding agg_run_def
  by (simp add: foldl_agg_step_length foldl_agg_step_sorted)

text \<open>Two ingests, the second one older: the times of the window decrease.\<close>

theorem window_unsorted_after_older_ingest:
  "\<not> sorted (map time (getOneMinuteCandles
        (agg_run [Ingest ''BTC/USDT'' (bar 120000 1 1 1 1 1), Ingest ''BTC/USDT'' (bar 60000 1 1 1 1 1)])
        ''BTC/USDT''))"
  by (simp add: agg_run_def newAggregator_def processOneMinuteCandle_def getOneMinuteCandles_def
      bar_def MAX_1M_CANDLES_def)

theorem window_bounded_and_sorted_witness:
  "all_in_order newAggregator
      [Initialize ''BTC/USDT'' [bar 120000 1 1 1 1 1, bar 60000 1 1 1 1 1],
       Ingest ''BTC/USDT'' (bar 120000 2 2 2 2 2), Ingest ''BTC/USDT'' (bar 180000 1 1 1 1 1)]
   \<and> length (getOneMinuteCandles (agg_run
      [Initialize ''BTC/USDT'' [bar 120000 1 1 1 1 1, bar 60000 1 1 1 1 1],
       Ingest ''BTC/USDT'' (bar 120000 2 2 2 2 2), Ingest ''BTC/USDT'' (bar 180000 1 1 1 1 1)])
       ''BTC/USDT'') \<le> MAX_1M_CANDLES
   \<and> sorted (map time (getOneMinuteCandles (agg_run
      [Initialize ''BTC/USDT'' [bar 120000 1 1 1 1 1, bar 60000 1 1 1 1 1],
       Ingest ''BTC/USDT'' (bar 120000 2 2 2 2 2), Ingest ''BTC/USDT'' (bar 180000 1 1 1 1 1)])
       ''BTC/USDT''))"
proof -
  let ?ops = "[Initialize ''BTC/USDT'' [bar 120000 1 1 1 1 1, bar 60000 1 1 1 1 1],
       Ingest ''BTC/USDT'' (bar 120000 2 2 2 2 2), Ingest ''BTC/USDT'' (bar 180000 1 1 1 1 1)]"
  have h: "all_in_order newAggregator ?ops"
    by (simp add: newAggregator_def processOneMinuteCandle_def getOneMinuteCandles_def
      initializeCandles_def slice_def bar_def MAX_1M_CANDLES_def Let_def)
  show ?thesis
    using h window_bounded_and_sorted_when_in_order [of ?ops "''BTC/USDT''"] by blast
qed

text \<open>
  Claim C6. \<open>initializeCandles\<close> followed by \<open>getOneMinuteCandles\<close> yields the last
  \<open>min (length S) 1440\<close> elements of \<open>S\<close> sorted by time (the stable sort); the window is
  sorted, and initialising again, with \<open>S\<close> or with the window itself, changes nothing.
\<close>

theorem initialize_then_window:
  "getOneMinuteCandles (initializeCandles agg smb S) smb
      = last_n (min (length S) 1440) (sort_key time S)
   \<and> sorted (map time (getOneMinuteCandles (initializeCandles agg smb S) smb))
   \<and> initializeCandles (initializeCandles agg smb S) smb S = initializeCandles agg smb S
   \<and> initializeCandles (initializeCandles agg smb S) smb
        (getOneMinuteCandles (initializeCandles agg smb S) smb) = initializeCandles agg smb S"
proof (intro conjI)
  show w: "getOneMinuteCandles (initializeCandles agg smb S) smb
      = last_n (min (length S) 1440) (sort_key time S)"
  proof -
    have "length S - 1440 = length S - min (length S) 1440" by simp
    then show ?thesis
      by (simp only: initialize_window last_n_drop MAX_1M_CANDLES_def length_sort)
  qed
  show srt: "sorted (map time (getOneMinuteCandles (initializeCandles agg smb S) smb))"
    by (rule initialize_window_sorted)
  show "initializeCandles (initializeCandles agg smb S) smb S = initializeCandles agg smb S"
    by (simp add: initializeCandles_def Let_def)
  let ?w = "getOneMinuteCandles (initializeCandles agg smb S) smb"
  have len: "length ?w \<le> MAX_1M_CANDLES"
    by (simp add: initialize_window)
  have "sort_key time ?w = ?w"
    using srt by (rule sort_key_id_if_sorted)
  then have "getOneMinuteCandles (initializeCandles (initializeCandles agg smb S) smb ?w) smb = ?w"
    using len by (simp add: initialize_window [of _ _ ?w])
  then show "initializeCandles (initializeCandles agg smb S) smb ?w = initializeCandles agg smb S"
    by (simp add: initializeCandles_def Let_def getOneMinuteCandles_def)
qed

theorem initialize_then_window_witness:
  "getOneMinuteCandles (initializeCandles newAggregator ''BTC/USDT''
      [bar 120000 1 1 1 1 1, bar 0 2 2 2 2 2, bar 60000 3 3 3 3 3]) ''BTC/USDT''
   = [bar 0 2 2 2 2 2, bar 60000 3 3 3 3 3, bar 120000 1 1 1 1 1]"
  using initialize_then_window
     [of newAggregator "''BTC/USDT''" "[bar 120000 1 1 1 1 1, bar 0 2 2 2 2 2, bar 60000 3 3 3 3 3]"]
  by (simp add: last_n_def bar_def)

text \<open>
  Claim C9. Two consecutive ingests of candles with the same time leave the aggregator
  in the state that the second ingest alone gives, from every state.
\<close>

theorem ingest_same_time_twice: 
  assumes "time c1 = time c2"
  shows "processOneMinuteCandle (processOneMinuteCandle agg smb c1) smb c2 = processOneMinuteCandle agg smb c2"
proof -
  let ?a1 = "processOneMinuteCandle agg smb c1"
  let ?w = "getOneMinuteCandles agg smb"
  let ?w1 = "getOneMinuteCandles ?a1 smb"
  have w1: "?w1 \<noteq> [] \<and> time (last ?w1) = time c2 \<and>
     butlast ?w1 = butlast (getOneMinuteCandles (processOneMinuteCandle agg smb c2) smb)"
    using assms by (auto simp: process_window Let_def butlast_append)
  have "getOneMinuteCandles (processOneMinuteCandle ?a1 smb c2) smb = butlast ?w1 @ [c2]"
    using w1 by (subst process_window) (simp add: Let_def)
  moreover have "getOneMinuteCandles (processOneMinuteCandle agg smb c2) smb
      = butlast (getOneMinuteCandles (processOneMinuteCandle agg smb c2) smb) @ [c2]"
    by (auto simp: process_window Let_def butlast_append)
  ultimately have win: "getOneMinuteCandles (processOneMinuteCandle ?a1 smb c2) smb
      = getOneMinuteCandles (processOneMinuteCandle agg smb c2) smb"
    using w1 by simp
  have "processOneMinuteCandle ?a1 smb c2 = ?a1(smb \<mapsto> getOneMinuteCandles (processOneMinuteCandle ?a1 smb c2) smb)"
    by (rule process_upd)
  also have "\<dots> = agg(smb \<mapsto> getOneMinuteCandles (processOneMinuteCandle agg smb c2) smb)"
  proof -
    have "?a1 = agg(smb \<mapsto> ?w1)" by (rule process_upd)
    then have "?a1(smb \<mapsto> getOneMinuteCandles (processOneMinuteCandle ?a1 smb c2) smb)
       = agg(smb \<mapsto> getOneMinuteCandles (processOneMinuteCandle ?a1 smb c2) smb)"
      by (metis fun_upd_upd)
    then show ?thesis by (simp only: win)
  qed
  also have "\<dots> = processOneMinuteCandle agg smb c2"
    by (rule process_upd [symmetric])
  finally show ?thesis .
qed

theorem ingest_same_time_twice_witness:
  "processOneMinuteCandle
      (processOneMinuteCandle (agg_run [Ingest ''BTC/USDT'' (bar 0 1 1 1 1 1)])
          ''BTC/USDT'' (bar 60000 2 2 2 2 2))
      ''BTC/USDT'' (bar 60000 3 3 3 3 3)
   = processOneMinuteCandle (agg_run [Ingest ''BTC/USDT'' (bar 0 1 1 1 1 1)])
          ''BTC/USDT'' (bar 60000 3 3 3 3 3)
   \<and> getOneMinuteCandles
        (processOneMinuteCandle (agg_run [Ingest ''BTC/USDT'' (bar 0 1 1 1 1 1)])
          ''BTC/USDT'' (bar 60000 3 3 3 3 3)) ''BTC/USDT''
     = [bar 0 1 1 1 1 1, bar 60000 3 3 3 3 3]"
proof -
  have h: "time (bar 60000 2 2 2 2 2) = time (bar 60000 3 3 3 3 3)"
    by (simp add: bar_def)
  show ?thesis
    using ingest_same_time_twice [OF h, of "agg_run [Ingest ''BTC/USDT'' (bar 0 1 1 1 1 1)]" "''BTC/USDT''"]
    by (simp add: agg_run_def newAggregator_def processOneMinuteCandle_def getOneMinuteCandles_def
        MAX_1M_CANDLES_def bar_def)
qed

section \<open>The aggregated candle\<close>

lemma foldl_js_add_map:
  "foldl (\<lambda>sum c. js_add sum (f c)) a xs = foldl js_add a (map f xs)"
  by (induction xs arbitrary: a) simp_all




lemma fold_max_Max: "fold max (map f rest) (f c0) = Max (f ` set (c0 # rest))"
  for f :: "'a \<Rightarrow> real"
proof -
  have "Max (set (f c0 # map f rest)) = fold max (map f rest) (f c0)"
    by (rule Max.set_eq_fold)
  then show ?thesis by simp
qed

lemma fold_min_Min: "fold min (map f rest) (f c0) = Min (f ` set (c0 # rest))"
  for f :: "'a \<Rightarrow> real"
proof -
  have "Min (set (f c0 # map f rest)) = fold min (map f rest) (f c0)"
    by (rule Min.set_eq_fold)
  then show ?thesis by simp
qed

lemma hd_sort_key_min:
  assumes "cs \<noteq> []"
  shows "\<forall>d \<in> set cs. time (hd (sort_key time cs)) \<le> time d"
proof -
  let ?s = "sort_key time cs"
  have ne: "?s \<noteq> []" using assms by (metis length_sort length_0_conv)
  then obtain h t where s: "?s = h # t" by (cases ?s) auto
  have "sorted (map time ?s)" by simp
  with s have "\<forall>d \<in> set (h # t). time h \<le> time d" by auto
  moreover have "set (h # t) = set cs" using s by (metis set_sort)
  moreover have "hd ?s = h" using s by simp
  ultimately show ?thesis by (simp only:)
qed

lemma hd_filter_hd:
  assumes "xs \<noteq> []" "P (hd xs)"
  shows "hd (filter P xs) = hd xs"
  using assms by (cases xs) simp_all

lemma last_filter_last:
  assumes "xs \<noteq> []" "P (last xs)"
  shows "last (filter P xs) = last xs"
  using assms by (induction xs rule: rev_induct) simp_all

lemma hd_sort_key_earliest:
  assumes "cs \<noteq> []"
  shows "hd (sort_key time cs) = earliest cs"
proof -
  let ?s = "sort_key time cs"
  let ?m = "time (hd ?s)"
  have ne: "?s \<noteq> []" using assms by (metis length_sort length_0_conv)
  have min: "\<forall>d \<in> set cs. ?m \<le> time d" by (rule hd_sort_key_min [OF assms])
  have hin: "hd ?s \<in> set cs" using ne by (metis hd_in_set set_sort)
  have eq: "(\<forall>d \<in> set cs. time c \<le> time d) = (time c = ?m)" if "c \<in> set cs" for c
  proof
    assume "\<forall>d \<in> set cs. time c \<le> time d"
    then have "time c \<le> ?m" using hin by blast
    moreover have "?m \<le> time c" using min that by blast
    ultimately show "time c = ?m" by simp
  next
    assume "time c = ?m"
    then show "\<forall>d \<in> set cs. time c \<le> time d" using min by simp
  qed
  have "filter (\<lambda>c. \<forall>d \<in> set cs. time c \<le> time d) cs = filter (\<lambda>c. time c = ?m) cs"
    by (rule filter_cong [OF refl]) (rule eq)
  also have "\<dots> = filter (\<lambda>c. time c = ?m) ?s"
    by (rule sort_key_stable [symmetric])
  finally have "earliest cs = hd (filter (\<lambda>c. time c = ?m) ?s)"
    by (simp add: earliest_def)
  also have "\<dots> = hd ?s"
    using ne by (rule hd_filter_hd) simp
  finally show ?thesis by simp
qed

lemma last_sort_key_max:
  assumes "cs \<noteq> []"
  shows "\<forall>d \<in> set cs. time d \<le> time (last (sort_key time cs))"
proof -
  let ?s = "sort_key time cs"
  have ne: "?s \<noteq> []" using assms by (metis length_sort length_0_conv)
  have "sorted (map time (butlast ?s @ [last ?s]))" using ne by simp
  then have "\<forall>d \<in> set (butlast ?s). time d \<le> time (last ?s)"
    by (simp add: sorted_append)
  moreover have "set ?s = insert (last ?s) (set (butlast ?s))"
    using ne by (metis append_butlast_last_id list.simps(15) rotate1.simps(2) set_rotate1)
  ultimately have "\<forall>d \<in> set ?s. time d \<le> time (last ?s)" by auto
  then show ?thesis by simp
qed

lemma last_sort_key_latest:
  assumes "cs \<noteq> []"
  shows "last (sort_key time cs) = latest cs"
proof -
  let ?s = "sort_key time cs"
  let ?m = "time (last ?s)"
  have ne: "?s \<noteq> []" using assms by (metis length_sort length_0_conv)
  have mx: "\<forall>d \<in> set cs. time d \<le> ?m" by (rule last_sort_key_max [OF assms])
  have lin: "last ?s \<in> set cs" using ne by (metis last_in_set set_sort)
  have eq: "(\<forall>d \<in> set cs. time d \<le> time c) = (time c = ?m)" if "c \<in> set cs" for c
  proof
    assume "\<forall>d \<in> set cs. time d \<le> time c"
    then have "?m \<le> time c" using lin by blast
    moreover have "time c \<le> ?m" using mx that by blast
    ultimately show "time c = ?m" by simp
  next
    assume "time c = ?m"
    then show "\<forall>d \<in> set cs. time d \<le> time c" using mx by simp
  qed
  have "filter (\<lambda>c. \<forall>d \<in> set cs. time d \<le> time c) cs = filter (\<lambda>c. time c = ?m) cs"
    by (rule filter_cong [OF refl]) (rule eq)
  also have "\<dots> = filter (\<lambda>c. time c = ?m) ?s"
    by (rule sort_key_stable [symmetric])
  finally have "latest cs = last (filter (\<lambda>c. time c = ?m) ?s)"
    by (simp add: latest_def)
  also have "\<dots> = last ?s"
    using ne by (rule last_filter_last) simp
  finally show ?thesis by simp
qed

lemma aggregateCandles_nonempty:
  assumes "cs \<noteq> []"
  shows "aggregateCandles cs start =
    Inr \<lparr> time = start, open = open (earliest cs),
          high = Max (high ` set cs), low = Min (low ` set cs),
          close = close (latest cs),
          volume = js_sum (map volume (sort_key time cs)),
          quoteVolume = Some (js_sum (map (\<lambda>c. orZero (quoteVolume c)) (sort_key time cs))) \<rparr>"
proof -
  let ?s = "sort_key time cs"
  have ne: "?s \<noteq> []" using assms by (metis length_sort length_0_conv)
  then obtain c0 rest where s: "?s = c0 # rest" by (cases ?s) auto
  have c0: "c0 = earliest cs" using hd_sort_key_earliest [OF assms] s by simp
  have l: "last (c0 # rest) = latest cs" using last_sort_key_latest [OF assms] s by simp
  have st: "set (c0 # rest) = set cs" using s by (metis set_sort)
  show ?thesis
    unfolding aggregateCandles_def Let_def s js_sum_def
    apply (simp only: list.case fold_max_Max fold_min_Min st l
        foldl_js_add_map [where f = volume]
        foldl_js_add_map [where f = "\<lambda>c. orZero (quoteVolume c)"])
    apply (simp only: c0)
    done
qed

lemma getAggregatedCandle_1m:
  "getAggregatedCandle agg now smb ''1m'' =
     Inr (if getOneMinuteCandles agg smb = [] then None
          else Some (last (getOneMinuteCandles agg smb)))"
  by (simp add: getAggregatedCandle_def getOneMinuteCandles_def split: option.splits)

lemma getAggregatedCandle_unknown:
  "iv \<noteq> ''1m'' \<Longrightarrow> INTERVAL_TO_MS iv = None \<Longrightarrow> getAggregatedCandle agg now smb iv = Inr None"
  by (simp add: getAggregatedCandle_def)

lemma filter_in_bar:
  "filter (\<lambda>c. getIntervalStart now ms \<le> time c \<and> time c < getIntervalStart now ms + ms) w
     = filter (in_bar now ms) w"
  by (rule filter_cong [OF refl]) (simp add: in_bar_def)

lemma getAggregatedCandle_higher:
  assumes "iv \<noteq> ''1m''" and "INTERVAL_TO_MS iv = Some ms"
  shows "getAggregatedCandle agg now smb iv =
     (if filter (in_bar now ms) (getOneMinuteCandles agg smb) = [] then Inr None
      else (case aggregateCandles (filter (in_bar now ms) (getOneMinuteCandles agg smb))
                  (getIntervalStart now ms) of
              Inl e \<Rightarrow> Inl e | Inr c \<Rightarrow> Inr (Some c)))"
  using assms
  by (auto simp: getAggregatedCandle_def getOneMinuteCandles_def Let_def filter_in_bar
      split: option.splits)

lemma getAggregatedCandle_total: "\<exists>r. getAggregatedCandle agg now smb iv = Inr r"
proof (cases "iv = ''1m''")
  case True
  then show ?thesis by (simp add: getAggregatedCandle_1m)
next
  case False
  show ?thesis
  proof (cases "INTERVAL_TO_MS iv")
    case None
    with False show ?thesis by (simp add: getAggregatedCandle_unknown)
  next
    case (Some ms)
    with False show ?thesis
      by (simp add: getAggregatedCandle_higher aggregateCandles_nonempty)
  qed
qed

text \<open>
  Claim C3. As amended: for every interval other than 1m, \<open>getAggregatedCandle\<close> returns
  absent whenever the window has no 1m candle in the bar that contains now (and for an
  interval it does not know). For 1m it does not look at the clock: it returns the last
  candle of the window, and absent only for an empty window.
\<close>

theorem current_absent_without_candle_in_bar:
  "(iv \<noteq> ''1m''
      \<and> (\<forall>ms. INTERVAL_TO_MS iv = Some ms
              \<longrightarrow> filter (in_bar now ms) (getOneMinuteCandles agg smb) = [])
     \<longrightarrow> getAggregatedCandle agg now smb iv = Inr None)
   \<and> getAggregatedCandle agg now smb ''1m'' =
       Inr (if getOneMinuteCandles agg smb = [] then None
            else Some (last (getOneMinuteCandles agg smb)))"
proof (intro conjI impI)
  assume a: "iv \<noteq> ''1m'' \<and> (\<forall>ms. INTERVAL_TO_MS iv = Some ms
              \<longrightarrow> filter (in_bar now ms) (getOneMinuteCandles agg smb) = [])"
  show "getAggregatedCandle agg now smb iv = Inr None"
  proof (cases "INTERVAL_TO_MS iv")
    case None
    with a show ?thesis by (simp add: getAggregatedCandle_unknown)
  next
    case (Some ms)
    with a have "filter (in_bar now ms) (getOneMinuteCandles agg smb) = []" by simp
    with a Some show ?thesis by (simp add: getAggregatedCandle_higher)
  qed
next
  show "getAggregatedCandle agg now smb ''1m'' =
       Inr (if getOneMinuteCandles agg smb = [] then None
            else Some (last (getOneMinuteCandles agg smb)))"
    by (rule getAggregatedCandle_1m)
qed

text \<open>
  At 00:02:00 the 1m bar is empty (the only candle is the one of 00:00), and the 1m
  result is that candle.
\<close>

theorem current_1m_present_outside_bar:
  "INTERVAL_TO_MS ''1m'' = Some 60000
   \<and> filter (in_bar 120000 60000)
        (getOneMinuteCandles (agg_run [Ingest ''BTC/USDT'' (bar 0 1 2 1 2 1)]) ''BTC/USDT'') = []
   \<and> getAggregatedCandle (agg_run [Ingest ''BTC/USDT'' (bar 0 1 2 1 2 1)]) 120000 ''BTC/USDT'' ''1m''
       = Inr (Some (bar 0 1 2 1 2 1))"
  by (simp add: agg_run_def newAggregator_def processOneMinuteCandle_def getOneMinuteCandles_def
      bar_def MAX_1M_CANDLES_def INTERVAL_TO_MS_def in_bar_def getIntervalStart_def
      getAggregatedCandle_def)

theorem current_absent_without_candle_in_bar_witness:
  "getAggregatedCandle (agg_run [Ingest ''BTC/USDT'' (bar 0 1 2 1 2 1)]) 300000 ''BTC/USDT'' ''5m''
     = Inr None
   \<and> getAggregatedCandle (agg_run [Ingest ''BTC/USDT'' (bar 0 1 2 1 2 1)]) 300000 ''BTC/USDT'' ''1m''
     = Inr (Some (bar 0 1 2 1 2 1))"
proof -
  let ?agg = "agg_run [Ingest ''BTC/USDT'' (bar 0 1 2 1 2 1)]"
  have w: "getOneMinuteCandles ?agg ''BTC/USDT'' = [bar 0 1 2 1 2 1]"
    by (simp add: agg_run_def newAggregator_def processOneMinuteCandle_def getOneMinuteCandles_def
        MAX_1M_CANDLES_def)
  have h: "''5m'' \<noteq> ''1m'' \<and> (\<forall>ms. INTERVAL_TO_MS ''5m'' = Some ms
              \<longrightarrow> filter (in_bar 300000 ms) (getOneMinuteCandles ?agg ''BTC/USDT'') = [])"
    unfolding w by (simp add: INTERVAL_TO_MS_def in_bar_def getIntervalStart_def bar_def)
  show ?thesis
    using h current_absent_without_candle_in_bar [of "''5m''" 300000 ?agg "''BTC/USDT''"]
    by (simp add: w)
qed







section \<open>The room registry\<close>

lemma set_update_subset: "set (AList.update k v al) \<subseteq> insert (k, v) (set al)"
  by (induction al) auto

lemma set_delete_subset: "set (AList.delete k al) \<subseteq> set al"
  by (auto simp: AList.delete_eq)

lemma Set_add_nonempty: "Set_add x xs \<noteq> []"
  by (auto simp: Set_add_def)

lemma update_nonempty:
  assumes "\<forall>p \<in> set rs. clients (snd p) \<noteq> []" and "clients r \<noteq> []"
  shows "\<forall>p \<in> set (AList.update k r rs). clients (snd p) \<noteq> []"
proof
  fix p assume "p \<in> set (AList.update k r rs)"
  then have "p = (k, r) \<or> p \<in> set rs" using set_update_subset [of k r rs] by auto
  with assms show "clients (snd p) \<noteq> []" by auto
qed

lemma delete_nonempty:
  assumes "\<forall>p \<in> set rs. clients (snd p) \<noteq> []"
  shows "\<forall>p \<in> set (AList.delete k rs). clients (snd p) \<noteq> []"
  using assms set_delete_subset [of k rs] by blast

lemma addClientToRoom_nonempty:
  assumes "\<forall>p \<in> set (rooms st). clients (snd p) \<noteq> []"
  shows "\<forall>p \<in> set (rooms (addClientToRoom st client sub)). clients (snd p) \<noteq> []"
proof -
  define R where "R = (case map_of (rooms st) (getRoomKey sub) of
                    None \<Rightarrow> \<lparr> key = getRoomKey sub, subscription = sub, clients = [],
                               currentCandle = None, lastBroadcast = 0 \<rparr>
                  | Some r \<Rightarrow> r)"
  have eq: "rooms (addClientToRoom st client sub) =
      AList.update (getRoomKey sub) (R \<lparr> clients := Set_add client (clients R) \<rparr>) (rooms st)"
    by (simp add: addClientToRoom_def Let_def R_def)
  have "clients (R \<lparr> clients := Set_add client (clients R) \<rparr>) \<noteq> []"
    by (simp add: Set_add_nonempty)
  with assms show ?thesis
    unfolding eq by (rule update_nonempty)
qed

lemma leave_nonempty:
  assumes "\<forall>p \<in> set rs. clients (snd p) \<noteq> []"
  shows "\<forall>p \<in> set (if length (clients (room \<lparr> clients := Set_delete client (clients room) \<rparr>)) = 0
                      then AList.delete roomKey rs
                      else AList.update roomKey
                             (room \<lparr> clients := Set_delete client (clients room) \<rparr>) rs).
           clients (snd p) \<noteq> []"
proof (cases "Set_delete client (clients room) = []")
  case True
  then show ?thesis using delete_nonempty [OF assms] by simp
next
  case False
  then have "clients (room \<lparr> clients := Set_delete client (clients room) \<rparr>) \<noteq> []" by simp
  with assms have "\<forall>p \<in> set (AList.update roomKey
       (room \<lparr> clients := Set_delete client (clients room) \<rparr>) rs). clients (snd p) \<noteq> []"
    by (rule update_nonempty)
  with False show ?thesis by simp
qed

lemma removeClientFromRoom_nonempty:
  assumes "\<forall>p \<in> set (rooms st). clients (snd p) \<noteq> []"
  shows "\<forall>p \<in> set (rooms (removeClientFromRoom st client sub)). clients (snd p) \<noteq> []"
proof (cases "map_of (rooms st) (getRoomKey sub)")
  case None
  with assms show ?thesis by (simp add: removeClientFromRoom_def)
next
  case (Some room)
  then have "rooms (removeClientFromRoom st client sub) =
    (if length (clients (room \<lparr> clients := Set_delete client (clients room) \<rparr>)) = 0
                      then AList.delete (getRoomKey sub) (rooms st)
                      else AList.update (getRoomKey sub)
                             (room \<lparr> clients := Set_delete client (clients room) \<rparr>) (rooms st))"
    by (simp add: removeClientFromRoom_def Let_def)
  then show ?thesis using leave_nonempty [OF assms] by (simp only:)
qed

lemma body_nonempty:
  assumes "\<forall>p \<in> set rs. clients (snd p) \<noteq> []"
  shows "\<forall>p \<in> set (removeClientFromAllRooms_body client roomKey rs). clients (snd p) \<noteq> []"
proof (cases "map_of rs roomKey")
  case None
  with assms show ?thesis by (simp add: removeClientFromAllRooms_body_def)
next
  case (Some room)
  then have "removeClientFromAllRooms_body client roomKey rs =
    (if length (clients (room \<lparr> clients := Set_delete client (clients room) \<rparr>)) = 0
                      then AList.delete roomKey rs
                      else AList.update roomKey
                             (room \<lparr> clients := Set_delete client (clients room) \<rparr>) rs)"
    by (simp add: removeClientFromAllRooms_body_def Let_def)
  then show ?thesis using leave_nonempty [OF assms] by (simp only:)
qed

lemma fold_body_nonempty:
  "\<forall>p \<in> set rs. clients (snd p) \<noteq> [] \<Longrightarrow>
   \<forall>p \<in> set (fold (removeClientFromAllRooms_body client) ks rs). clients (snd p) \<noteq> []"
proof (induction ks arbitrary: rs)
  case Nil
  then show ?case by simp
next
  case (Cons k ks)
  from Cons.prems have "\<forall>p \<in> set (removeClientFromAllRooms_body client k rs). clients (snd p) \<noteq> []"
    by (rule body_nonempty)
  then have "\<forall>p \<in> set (fold (removeClientFromAllRooms_body client) ks
      (removeClientFromAllRooms_body client k rs)). clients (snd p) \<noteq> []"
    by (rule Cons.IH)
  then show ?case by (simp only: fold_simps)
qed

lemma removeClientFromAllRooms_nonempty:
  assumes "\<forall>p \<in> set (rooms st). clients (snd p) \<noteq> []"
  shows "\<forall>p \<in> set (rooms (removeClientFromAllRooms st client)). clients (snd p) \<noteq> []"
  using assms by (simp add: removeClientFromAllRooms_def fold_body_nonempty)

lemma room_step_nonempty:
  assumes "\<forall>p \<in> set (rooms st). clients (snd p) \<noteq> []"
  shows "\<forall>p \<in> set (rooms (room_step st x)). clients (snd p) \<noteq> []"
proof (cases x)
  case (Join client sub)
  show ?thesis unfolding Join room_step.simps using assms by (rule addClientToRoom_nonempty)
next
  case (Leave client sub)
  show ?thesis unfolding Leave room_step.simps using assms by (rule removeClientFromRoom_nonempty)
next
  case (LeaveAll client)
  show ?thesis unfolding LeaveAll room_step.simps
    using assms by (rule removeClientFromAllRooms_nonempty)
qed

lemma foldl_room_step_nonempty:
  "\<forall>p \<in> set (rooms st). clients (snd p) \<noteq> [] \<Longrightarrow>
   \<forall>p \<in> set (rooms (foldl room_step st ops)). clients (snd p) \<noteq> []"
proof (induction ops arbitrary: st)
  case Nil
  then show ?case by simp
next
  case (Cons x xs)
  from Cons.prems have "\<forall>p \<in> set (rooms (room_step st x)). clients (snd p) \<noteq> []"
    by (rule room_step_nonempty)
  then have "\<forall>p \<in> set (rooms (foldl room_step (room_step st x) xs)). clients (snd p) \<noteq> []"
    by (rule Cons.IH)
  then show ?case by (simp only: foldl_Cons)
qed

lemma addClientToRoom_registers:
  "\<exists>r. map_of (rooms (addClientToRoom st client sub)) (getRoomKey sub) = Some r
        \<and> client \<in> set (clients r)"
  by (simp add: addClientToRoom_def Let_def update_conv' Set_add_def)

lemma removeClientFromRoom_last:
  assumes "map_of (rooms st) (getRoomKey sub) = Some r" and "set (clients r) \<subseteq> {client}"
  shows "map_of (rooms (removeClientFromRoom st client sub)) (getRoomKey sub) = None"
proof -
  have "Set_delete client (clients r) = []"
    using assms(2) by (auto simp: Set_delete_def removeAll_filter_not_eq filter_empty_conv)
  with assms(1) show ?thesis
    by (simp add: removeClientFromRoom_def Let_def delete_conv')
qed

lemma set_update_distinct:
  "distinct (map fst al) \<Longrightarrow>
   set (AList.update k v al) = insert (k, v) {p \<in> set al. fst p \<noteq> k}"
  by (induction al) (auto simp: rev_image_eqI)

lemma set_delete_eq: "set (AList.delete k al) = {p \<in> set al. fst p \<noteq> k}"
  by (auto simp: AList.delete_eq)

lemma addClientToRoom_member_subscribed:
  assumes "member_subscribed st"
  shows "member_subscribed (addClientToRoom st client sub)"
proof -
  define k where "k = getRoomKey sub"
  define R where "R = (case map_of (rooms st) (getRoomKey sub) of
                    None \<Rightarrow> \<lparr> key = getRoomKey sub, subscription = sub, clients = [],
                               currentCandle = None, lastBroadcast = 0 \<rparr>
                  | Some r \<Rightarrow> r)"
  define R' where "R' = R \<lparr> clients := Set_add client (clients R) \<rparr>"
  have rs: "rooms (addClientToRoom st client sub) = AList.update k R' (rooms st)"
    by (simp add: addClientToRoom_def Let_def R_def R'_def k_def)
  have ss: "subscriptions (addClientToRoom st client sub)
      = (subscriptions st)(client := Set_add k (subscriptions st client))"
    by (simp add: addClientToRoom_def Let_def k_def)
  from assms have d: "distinct (map fst (rooms st))"
    and m: "\<And>p c. p \<in> set (rooms st) \<Longrightarrow> c \<in> set (clients (snd p)) \<Longrightarrow> fst p \<in> set (subscriptions st c)"
    by (auto simp: member_subscribed_def)
  have old: "set (clients R) \<subseteq> {c. k \<in> set (subscriptions st c)}"
  proof (cases "map_of (rooms st) k")
    case None
    then show ?thesis by (simp add: R_def k_def)
  next
    case (Some r)
    then have "(k, r) \<in> set (rooms st)" by (rule map_of_SomeD)
    with m [of "(k, r)"] Some show ?thesis by (auto simp: R_def k_def)
  qed
  have mono: "set (subscriptions st c) \<subseteq> set (subscriptions (addClientToRoom st client sub) c)" for c
    by (auto simp: ss Set_add_def)
  have "distinct (map fst (AList.update k R' (rooms st)))"
    using d by (rule distinct_update)
  moreover have "fst p \<in> set (subscriptions (addClientToRoom st client sub) c)"
    if "p \<in> set (AList.update k R' (rooms st))" "c \<in> set (clients (snd p))" for p c
  proof -
    from that(1) have "p = (k, R') \<or> p \<in> set (rooms st)"
      by (auto simp: set_update_distinct [OF d])
    then show ?thesis
    proof
      assume p: "p = (k, R')"
      with that(2) have "c = client \<or> c \<in> set (clients R)"
        by (auto simp: R'_def Set_add_def split: if_splits)
      then show ?thesis
      proof
        assume "c = client"
        then show ?thesis by (simp add: p ss Set_add_def)
      next
        assume "c \<in> set (clients R)"
        with old have "k \<in> set (subscriptions st c)" by auto
        with mono show ?thesis by (auto simp: p)
      qed
    next
      assume "p \<in> set (rooms st)"
      then have "fst p \<in> set (subscriptions st c)" using that(2) by (rule m)
      with mono show ?thesis by auto
    qed
  qed
  ultimately show ?thesis
    unfolding member_subscribed_def rs by blast
qed

lemma leave_room_set:
  assumes d: "distinct (map fst rs)" and r: "map_of rs k = Some room"
  shows "set (if length (clients (room \<lparr> clients := Set_delete client (clients room) \<rparr>)) = 0
              then AList.delete k rs
              else AList.update k (room \<lparr> clients := Set_delete client (clients room) \<rparr>) rs)
         \<subseteq> insert (k, room \<lparr> clients := Set_delete client (clients room) \<rparr>)
                    {p \<in> set rs. fst p \<noteq> k}"
  by (auto simp: set_update_distinct [OF d] set_delete_eq)

lemma leave_room_distinct:
  assumes d: "distinct (map fst rs)"
  shows "distinct (map fst
            (if length (clients (room \<lparr> clients := Set_delete client (clients room) \<rparr>)) = 0
              then AList.delete k rs
              else AList.update k (room \<lparr> clients := Set_delete client (clients room) \<rparr>) rs))"
  using d by (simp add: distinct_update distinct_delete)

lemma body_eq:
  "removeClientFromAllRooms_body client k rs =
     (case map_of rs k of None \<Rightarrow> rs
      | Some room \<Rightarrow>
         (if length (clients (room \<lparr> clients := Set_delete client (clients room) \<rparr>)) = 0
              then AList.delete k rs
              else AList.update k (room \<lparr> clients := Set_delete client (clients room) \<rparr>) rs))"
  by (cases "map_of rs k") (simp_all add: removeClientFromAllRooms_body_def Let_def)

lemma body_distinct:
  "distinct (map fst rs) \<Longrightarrow> distinct (map fst (removeClientFromAllRooms_body client k rs))"
  unfolding body_eq by (cases "map_of rs k") (simp_all add: distinct_update distinct_delete)

lemma body_rooms:
  assumes d: "distinct (map fst rs)"
    and p: "p \<in> set (removeClientFromAllRooms_body client k rs)"
  shows "\<exists>q \<in> set rs. fst q = fst p
            \<and> (if fst p = k then set (clients (snd p)) = set (clients (snd q)) - {client}
                else snd p = snd q)"
proof (cases "map_of rs k")
  case None
  then have "k \<notin> fst ` set rs" by (simp add: map_of_eq_None_iff)
  moreover from None p have "p \<in> set rs" by (simp add: body_eq)
  ultimately show ?thesis by (intro bexI [of _ p]) auto
next
  case (Some room)
  then have in_rs: "(k, room) \<in> set rs" by (rule map_of_SomeD)
  from p Some have "p \<in> insert (k, room \<lparr> clients := Set_delete client (clients room) \<rparr>)
                    {p \<in> set rs. fst p \<noteq> k}"
    using leave_room_set [OF d Some, of client] by (auto simp: body_eq)
  then show ?thesis
  proof
    assume "p = (k, room \<lparr> clients := Set_delete client (clients room) \<rparr>)"
    then show ?thesis using in_rs
      by (intro bexI [of _ "(k, room)"]) (auto simp: Set_delete_def)
  next
    assume "p \<in> {p \<in> set rs. fst p \<noteq> k}"
    then show ?thesis by (intro bexI [of _ p]) auto
  qed
qed

lemma fold_body_distinct:
  "distinct (map fst rs) \<Longrightarrow>
   distinct (map fst (fold (removeClientFromAllRooms_body client) ks rs))"
  by (induction ks arbitrary: rs) (simp_all add: body_distinct)

lemma fold_body_rooms:
  assumes "distinct (map fst rs)"
    and "p \<in> set (fold (removeClientFromAllRooms_body client) ks rs)"
  shows "\<exists>q \<in> set rs. fst q = fst p
            \<and> (if fst p \<in> set ks then set (clients (snd p)) = set (clients (snd q)) - {client}
                else snd p = snd q)"
  using assms
proof (induction ks arbitrary: rs)
  case Nil
  then show ?case by (intro bexI [of _ p]) auto
next
  case (Cons k ks)
  let ?rs1 = "removeClientFromAllRooms_body client k rs"
  have d1: "distinct (map fst ?rs1)" using Cons.prems(1) by (rule body_distinct)
  from Cons.prems(2) have "p \<in> set (fold (removeClientFromAllRooms_body client) ks ?rs1)" by simp
  with Cons.IH [OF d1] obtain q1 where q1: "q1 \<in> set ?rs1" "fst q1 = fst p"
    and c1: "if fst p \<in> set ks then set (clients (snd p)) = set (clients (snd q1)) - {client}
                else snd p = snd q1" by blast
  from body_rooms [OF Cons.prems(1) q1(1)] obtain q where q: "q \<in> set rs" "fst q = fst q1"
    and c: "if fst q1 = k then set (clients (snd q1)) = set (clients (snd q)) - {client}
                else snd q1 = snd q" by blast
  show ?case
  proof (intro bexI [of _ q] conjI)
    show "fst q = fst p" using q(2) q1(2) by simp
    show "if fst p \<in> set (k # ks) then set (clients (snd p)) = set (clients (snd q)) - {client}
                else snd p = snd q"
      using c c1 q1(2) by (auto split: if_splits)
    show "q \<in> set rs" by (rule q(1))
  qed
qed

lemma removeClientFromAllRooms_member_subscribed:
  assumes "member_subscribed st"
  shows "member_subscribed (removeClientFromAllRooms st client)
       \<and> (\<forall>p \<in> set (rooms (removeClientFromAllRooms st client)). client \<notin> set (clients (snd p)))"
proof -
  let ?ks = "subscriptions st client"
  let ?rs' = "fold (removeClientFromAllRooms_body client) ?ks (rooms st)"
  from assms have d: "distinct (map fst (rooms st))"
    and m: "\<And>p c. p \<in> set (rooms st) \<Longrightarrow> c \<in> set (clients (snd p)) \<Longrightarrow> fst p \<in> set (subscriptions st c)"
    by (auto simp: member_subscribed_def)
  have rs: "rooms (removeClientFromAllRooms st client) = ?rs'"
    and ss: "subscriptions (removeClientFromAllRooms st client) = (subscriptions st)(client := [])"
    by (simp_all add: removeClientFromAllRooms_def)
  have sub: "set (clients (snd p)) \<subseteq> {c. c \<noteq> client \<and> fst p \<in> set (subscriptions st c)}"
    if "p \<in> set ?rs'" for p
  proof -
    from fold_body_rooms [OF d that] obtain q where q: "q \<in> set (rooms st)" "fst q = fst p"
      and c: "if fst p \<in> set ?ks then set (clients (snd p)) = set (clients (snd q)) - {client}
                else snd p = snd q" by blast
    show ?thesis
    proof
      fix x assume x: "x \<in> set (clients (snd p))"
      with c have xq: "x \<in> set (clients (snd q))" by (auto split: if_splits)
      with q have xs: "fst p \<in> set (subscriptions st x)" using m [of q x] by simp
      have "x \<noteq> client"
      proof
        assume "x = client"
        with xs have "fst p \<in> set ?ks" by simp
        with c x \<open>x = client\<close> show False by auto
      qed
      with xs show "x \<in> {c. c \<noteq> client \<and> fst p \<in> set (subscriptions st c)}" by simp
    qed
  qed
  have "distinct (map fst ?rs')" using d by (rule fold_body_distinct)
  then show ?thesis
    unfolding member_subscribed_def rs ss using sub by fastforce
qed

lemma removeClientFromRoom_member_subscribed:
  assumes "member_subscribed st"
  shows "member_subscribed (removeClientFromRoom st client sub)"
proof (cases "map_of (rooms st) (getRoomKey sub)")
  case None
  with assms show ?thesis by (simp add: removeClientFromRoom_def)
next
  case (Some room)
  let ?k = "getRoomKey sub"
  let ?room' = "room \<lparr> clients := Set_delete client (clients room) \<rparr>"
  let ?rs' = "(if length (clients ?room') = 0 then AList.delete ?k (rooms st)
               else AList.update ?k ?room' (rooms st))"
  from assms have d: "distinct (map fst (rooms st))"
    and m: "\<And>p c. p \<in> set (rooms st) \<Longrightarrow> c \<in> set (clients (snd p)) \<Longrightarrow> fst p \<in> set (subscriptions st c)"
    by (auto simp: member_subscribed_def)
  have rs: "rooms (removeClientFromRoom st client sub) = ?rs'"
    and ss: "subscriptions (removeClientFromRoom st client sub)
              = (subscriptions st)(client := Set_delete ?k (subscriptions st client))"
    using Some by (simp_all add: removeClientFromRoom_def Let_def)
  have in_rs: "(?k, room) \<in> set (rooms st)" using Some by (rule map_of_SomeD)
  have "fst p \<in> set (((subscriptions st)(client := Set_delete ?k (subscriptions st client))) c)"
    if p: "p \<in> set ?rs'" and c: "c \<in> set (clients (snd p))" for p c
  proof -
    from p have "p \<in> insert (?k, ?room') {p \<in> set (rooms st). fst p \<noteq> ?k}"
      using leave_room_set [OF d Some, of client] by blast
    then show ?thesis
    proof
      assume e: "p = (?k, ?room')"
      with c have "c \<noteq> client" "c \<in> set (clients room)" by (auto simp: Set_delete_def)
      with m [OF in_rs, of c] show ?thesis by (simp add: e)
    next
      assume "p \<in> {p \<in> set (rooms st). fst p \<noteq> ?k}"
      then have "p \<in> set (rooms st)" "fst p \<noteq> ?k" by auto
      with m [of p c] c show ?thesis by (auto simp: Set_delete_def)
    qed
  qed
  moreover have "distinct (map fst ?rs')" using d by (rule leave_room_distinct)
  ultimately show ?thesis
    unfolding member_subscribed_def rs ss by blast
qed

lemma room_step_member_subscribed:
  assumes "member_subscribed st"
  shows "member_subscribed (room_step st x)"
proof (cases x)
  case (Join client sub)
  show ?thesis unfolding Join room_step.simps
    using assms by (rule addClientToRoom_member_subscribed)
next
  case (Leave client sub)
  show ?thesis unfolding Leave room_step.simps
    using assms by (rule removeClientFromRoom_member_subscribed)
next
  case (LeaveAll client)
  show ?thesis unfolding LeaveAll room_step.simps
    using removeClientFromAllRooms_member_subscribed [OF assms] by blast
qed

lemma foldl_room_step_member_subscribed:
  "member_subscribed st \<Longrightarrow> member_subscribed (foldl room_step st ops)"
proof (induction ops arbitrary: st)
  case Nil
  then show ?case by simp
next
  case (Cons x xs)
  from Cons.prems have "member_subscribed (room_step st x)"
    by (rule room_step_member_subscribed)
  then have "member_subscribed (foldl room_step (room_step st x) xs)"
    by (rule Cons.IH)
  then show ?case by (simp only: foldl_Cons)
qed

lemma room_run_member_subscribed: "member_subscribed (room_run ops)"
  unfolding room_run_def
  by (rule foldl_room_step_member_subscribed) (simp add: member_subscribed_def newBroadcaster_def)

text \<open>
  Claim C8. After every sequence of \<open>addClientToRoom\<close>, \<open>removeClientFromRoom\<close> and
  \<open>removeClientFromAllRooms\<close> from the broadcaster as constructed, every registered room has
  at least one client. A join registers the room of its key with the client in it, a
  leave of the only client of a room removes the room from the registry, and after
  \<open>removeClientFromAllRooms\<close> the client is in no registered room.
\<close>

theorem rooms_always_have_clients:
  "(\<forall>(k, r) \<in> set (rooms (room_run ops)). length (clients r) > 0)
   \<and> (\<exists>r. map_of (rooms (addClientToRoom (room_run ops) client sub)) (getRoomKey sub) = Some r
          \<and> client \<in> set (clients r))
   \<and> (\<forall>r. map_of (rooms (room_run ops)) (getRoomKey sub) = Some r \<and> set (clients r) \<subseteq> {client}
          \<longrightarrow> map_of (rooms (removeClientFromRoom (room_run ops) client sub)) (getRoomKey sub)
                = None)
   \<and> (\<forall>(k, r) \<in> set (rooms (removeClientFromAllRooms (room_run ops) client)).
          client \<notin> set (clients r))"
proof (intro conjI)
  have "\<forall>p \<in> set (rooms (foldl room_step newBroadcaster ops)). clients (snd p) \<noteq> []"
    by (rule foldl_room_step_nonempty) (simp add: newBroadcaster_def)
  then show "\<forall>(k, r) \<in> set (rooms (room_run ops)). length (clients r) > 0"
    by (auto simp: room_run_def)
  show "\<exists>r. map_of (rooms (addClientToRoom (room_run ops) client sub)) (getRoomKey sub) = Some r
          \<and> client \<in> set (clients r)"
    by (rule addClientToRoom_registers)
  show "\<forall>r. map_of (rooms (room_run ops)) (getRoomKey sub) = Some r \<and> set (clients r) \<subseteq> {client}
          \<longrightarrow> map_of (rooms (removeClientFromRoom (room_run ops) client sub)) (getRoomKey sub)
                = None"
    using removeClientFromRoom_last by blast
  show "\<forall>(k, r) \<in> set (rooms (removeClientFromAllRooms (room_run ops) client)).
          client \<notin> set (clients r)"
    using removeClientFromAllRooms_member_subscribed [OF room_run_member_subscribed, of ops client]
    by auto
qed

theorem rooms_always_have_clients_witness:
  "rooms (room_run
      [Join 1 \<lparr>symbol = ''BTC/USDT'', interval = ''1m''\<rparr>,
       Join 2 \<lparr>symbol = ''BTC/USDT'', interval = ''1m''\<rparr>,
       Join 2 \<lparr>symbol = ''BTC/USDT'', interval = ''5m''\<rparr>,
       Leave 1 \<lparr>symbol = ''BTC/USDT'', interval = ''1m''\<rparr>,
       LeaveAll 2,
       Join 3 \<lparr>symbol = ''BTC/USDT'', interval = ''1h''\<rparr>])
   = [(''BTC/USDT:1h'',
       \<lparr> key = ''BTC/USDT:1h'', subscription = \<lparr>symbol = ''BTC/USDT'', interval = ''1h''\<rparr>,
         clients = [3], currentCandle = None, lastBroadcast = 0 \<rparr>)]
   \<and> map_of (rooms (removeClientFromRoom (room_run
      [Join 1 \<lparr>symbol = ''BTC/USDT'', interval = ''1m''\<rparr>,
       Join 2 \<lparr>symbol = ''BTC/USDT'', interval = ''1m''\<rparr>,
       Join 2 \<lparr>symbol = ''BTC/USDT'', interval = ''5m''\<rparr>,
       Leave 1 \<lparr>symbol = ''BTC/USDT'', interval = ''1m''\<rparr>,
       LeaveAll 2,
       Join 3 \<lparr>symbol = ''BTC/USDT'', interval = ''1h''\<rparr>]) 3
        \<lparr>symbol = ''BTC/USDT'', interval = ''1h''\<rparr>))
       (getRoomKey \<lparr>symbol = ''BTC/USDT'', interval = ''1h''\<rparr>) = None"
proof -
  let ?ops = "[Join 1 \<lparr>symbol = ''BTC/USDT'', interval = ''1m''\<rparr>,
       Join 2 \<lparr>symbol = ''BTC/USDT'', interval = ''1m''\<rparr>,
       Join 2 \<lparr>symbol = ''BTC/USDT'', interval = ''5m''\<rparr>,
       Leave 1 \<lparr>symbol = ''BTC/USDT'', interval = ''1m''\<rparr>,
       LeaveAll 2,
       Join 3 \<lparr>symbol = ''BTC/USDT'', interval = ''1h''\<rparr>]"
  have r: "rooms (room_run ?ops)
     = [(''BTC/USDT:1h'',
       \<lparr> key = ''BTC/USDT:1h'', subscription = \<lparr>symbol = ''BTC/USDT'', interval = ''1h''\<rparr>,
         clients = [3], currentCandle = None, lastBroadcast = 0 \<rparr>)]"
    by (simp add: room_run_def newBroadcaster_def addClientToRoom_def removeClientFromRoom_def
        removeClientFromAllRooms_def removeClientFromAllRooms_body_def getRoomKey_def
        Set_add_def Set_delete_def Let_def)
  have k: "getRoomKey \<lparr>symbol = ''BTC/USDT'', interval = ''1h''\<rparr> = ''BTC/USDT:1h''"
    by (simp add: getRoomKey_def)
  show ?thesis
    using rooms_always_have_clients [of ?ops 3 "\<lparr>symbol = ''BTC/USDT'', interval = ''1h''\<rparr>"]
    unfolding r k by simp
qed

section \<open>Refreshing the rooms of a symbol\<close>

lemma updateRoomCandle_loop_refreshed:
  "\<exists>rs'. updateRoomCandle_loop agg clock smb rs = Inr rs'
         \<and> list_all2 (refreshed agg clock smb) rs rs'"
proof (induction rs)
  case Nil
  then show ?case by simp
next
  case (Cons p rs)
  obtain k room where p: "p = (k, room)" by (cases p)
  from Cons.IH obtain rs' where rs': "updateRoomCandle_loop agg clock smb rs = Inr rs'"
    and rel: "list_all2 (refreshed agg clock smb) rs rs'" by blast
  obtain cand where cand: "getAggregatedCandle agg (clock k) smb (interval (subscription room)) = Inr cand"
    using getAggregatedCandle_total by blast
  show ?case
  proof (cases "symbol (subscription room) = smb")
    case False
    then have "updateRoomCandle_loop agg clock smb (p # rs) = Inr ((k, room) # rs')"
      by (simp add: p rs')
    moreover have "refreshed agg clock smb (k, room) (k, room)"
      using False by (simp add: refreshed_def)
    ultimately show ?thesis using rel by (simp add: p)
  next
    case True
    show ?thesis
    proof (cases cand)
      case None
      then have "updateRoomCandle_loop agg clock smb (p # rs) = Inr ((k, room) # rs')"
        using True cand by (simp add: p rs')
      moreover have "refreshed agg clock smb (k, room) (k, room)"
        using True cand None by (simp add: refreshed_def)
      ultimately show ?thesis using rel by (simp add: p)
    next
      case (Some c)
      then have "updateRoomCandle_loop agg clock smb (p # rs)
          = Inr ((k, room \<lparr> currentCandle := Some c \<rparr>) # rs')"
        using True cand by (simp add: p rs')
      moreover have "refreshed agg clock smb (k, room) (k, room \<lparr> currentCandle := Some c \<rparr>)"
        using True cand Some by (simp add: refreshed_def)
      ultimately show ?thesis using rel by (simp add: p)
    qed
  qed
qed

text \<open>
  Claim C10. \<open>updateRoomCandle\<close> for a symbol always completes. It leaves every client's
  subscriptions, the order and the keys of the rooms and every field of a room but
  \<open>currentCandle\<close> as they were; a room of another symbol is unchanged; a room for which
  the aggregator returns absent is unchanged, so it keeps the candle it had; and a room that
  had a candle has one afterwards.
\<close>

theorem refresh_changes_only_current_candle:
  "\<exists>st'. updateRoomCandle agg clock st smb = Inr st'
      \<and> subscriptions st' = subscriptions st
      \<and> list_all2 (refreshed agg clock smb) (rooms st) (rooms st')
      \<and> list_all2 (\<lambda>before after.
            (symbol (subscription (snd before)) \<noteq> smb \<longrightarrow> after = before)
          \<and> (getAggregatedCandle agg (clock (fst before)) smb
                 (interval (subscription (snd before))) = Inr None \<longrightarrow> after = before)
          \<and> (currentCandle (snd before) \<noteq> None \<longrightarrow> currentCandle (snd after) \<noteq> None))
          (rooms st) (rooms st')"
proof -
  obtain rs' where rs': "updateRoomCandle_loop agg clock smb (rooms st) = Inr rs'"
    and rel: "list_all2 (refreshed agg clock smb) (rooms st) rs'"
    using updateRoomCandle_loop_refreshed by blast
  have imp: "(symbol (subscription (snd b)) \<noteq> smb \<longrightarrow> a = b)
          \<and> (getAggregatedCandle agg (clock (fst b)) smb
                 (interval (subscription (snd b))) = Inr None \<longrightarrow> a = b)
          \<and> (currentCandle (snd b) \<noteq> None \<longrightarrow> currentCandle (snd a) \<noteq> None)"
    if "refreshed agg clock smb b a" for a b
  proof -
    obtain ka ra kb rb where ab: "a = (ka, ra)" "b = (kb, rb)" by (cases a, cases b) auto
    show ?thesis
      using that unfolding ab refreshed_def
      by (cases ra, cases rb) (auto split: sum.splits option.splits if_splits)
  qed
  have rel2: "list_all2 (\<lambda>before after.
            (symbol (subscription (snd before)) \<noteq> smb \<longrightarrow> after = before)
          \<and> (getAggregatedCandle agg (clock (fst before)) smb
                 (interval (subscription (snd before))) = Inr None \<longrightarrow> after = before)
          \<and> (currentCandle (snd before) \<noteq> None \<longrightarrow> currentCandle (snd after) \<noteq> None))
          (rooms st) rs'"
    using rel by (rule list_all2_mono) (rule imp)
  have "updateRoomCandle agg clock st smb = Inr (st \<lparr> rooms := rs' \<rparr>)"
    by (simp add: updateRoomCandle_def rs')
  with rel rel2 show ?thesis by simp
qed

text \<open>
  At 11:00 with one 1m candle of 10:00: the 1m room takes the candle, the 1h room keeps
  its old one, the room of the other symbol is untouched.
\<close>

theorem refresh_changes_only_current_candle_witness:
  "updateRoomCandle
      (agg_run [Ingest ''BTC/USDT'' (bar 36000000 10 12 9 11 5)])
      (\<lambda>k. 39600000)
      \<lparr> rooms =
          [(''BTC/USDT:1m'',
            \<lparr> key = ''BTC/USDT:1m'', subscription = \<lparr>symbol = ''BTC/USDT'', interval = ''1m''\<rparr>,
              clients = [1], currentCandle = None, lastBroadcast = 0 \<rparr>),
           (''BTC/USDT:1h'',
            \<lparr> key = ''BTC/USDT:1h'', subscription = \<lparr>symbol = ''BTC/USDT'', interval = ''1h''\<rparr>,
              clients = [1], currentCandle = Some (bar 32400000 1 2 1 2 1), lastBroadcast = 7 \<rparr>),
           (''ETH/USDT:1m'',
            \<lparr> key = ''ETH/USDT:1m'', subscription = \<lparr>symbol = ''ETH/USDT'', interval = ''1m''\<rparr>,
              clients = [2], currentCandle = None, lastBroadcast = 0 \<rparr>)],
        subscriptions = (\<lambda>c. []) \<rparr>
      ''BTC/USDT''
   = Inr \<lparr> rooms =
          [(''BTC/USDT:1m'',
            \<lparr> key = ''BTC/USDT:1m'', subscription = \<lparr>symbol = ''BTC/USDT'', interval = ''1m''\<rparr>,
              clients = [1], currentCandle = Some (bar 36000000 10 12 9 11 5), lastBroadcast = 0 \<rparr>),
           (''BTC/USDT:1h'',
            \<lparr> key = ''BTC/USDT:1h'', subscription = \<lparr>symbol = ''BTC/USDT'', interval = ''1h''\<rparr>,
              clients = [1], currentCandle = Some (bar 32400000 1 2 1 2 1), lastBroadcast = 7 \<rparr>),
           (''ETH/USDT:1m'',
            \<lparr> key = ''ETH/USDT:1m'', subscription = \<lparr>symbol = ''ETH/USDT'', interval = ''1m''\<rparr>,
              clients = [2], currentCandle = None, lastBroadcast = 0 \<rparr>)],
        subscriptions = (\<lambda>c. []) \<rparr>"
  (is "updateRoomCandle ?agg ?clock ?st ''BTC/USDT'' = Inr ?st'")
proof -
  have a: "?agg = [''BTC/USDT'' \<mapsto> [bar 36000000 10 12 9 11 5]]"
    by (simp add: agg_run_def newAggregator_def processOneMinuteCandle_def MAX_1M_CANDLES_def)
  have m: "getAggregatedCandle ?agg 39600000 ''BTC/USDT'' ''1m''
             = Inr (Some (bar 36000000 10 12 9 11 5))"
    unfolding a by (simp add: getAggregatedCandle_def)
  have h: "getAggregatedCandle ?agg 39600000 ''BTC/USDT'' ''1h'' = Inr None"
    unfolding a
    by (simp add: getAggregatedCandle_def INTERVAL_TO_MS_def getIntervalStart_def bar_def)
  have e: "updateRoomCandle ?agg ?clock ?st ''BTC/USDT'' = Inr ?st'"
    by (simp add: updateRoomCandle_def m h)
  from refresh_changes_only_current_candle [of ?agg ?clock ?st "''BTC/USDT''"]
  obtain st' where "updateRoomCandle ?agg ?clock ?st ''BTC/USDT'' = Inr st'"
    by blast
  with e show ?thesis by simp
qed

section \<open>The subscribe handler\<close>












end
